theory Spec2Isabelle
  imports
    Complex_Main
    "HOL-Library.AList"
    "HOL-Library.Multiset"
    "HOL-Library.List_Lexorder"
    "HOL-Library.Char_ord"
    "HOL-Library.Word"
begin

section \<open>The synchronisation engine of s3-v2.js\<close>

text \<open>
  The file holds two classes. \<open>S3SyncManager\<close> queues local changes, arms a timer for
  every change queued while no cycle runs, and runs sync cycles (\<open>performSync\<close>): fetch
  the remote state, merge the queue over it, upload the difference, clear the queue.
  \<open>S3MultipartUpload\<close> chooses between a single and a multipart upload by the length of
  the serialised payload.

  The embedding follows the file function by function. JavaScript objects used as
  dictionaries are association lists of their own properties (insertion order kept, as
  \<open>Object.entries\<close> sees it for keys that are not array indices). A read \<open>obj[k]\<close> and
  a write \<open>obj[k] = v\<close> go through the prototype chain, as modelled below. Identifiers
  compare as lists of characters in lexicographic order, character by character code,
  which is how JavaScript compares two strings with its greater-than operator (there by
  code unit). Timestamps are integers, as \<open>Date.now()\<close> returns them.

  What the file calls and does not define is either an argument of the model (the
  outcomes of \<open>fetchRemoteState\<close>, \<open>getLastKnownState\<close> and of the upload, the answer
  of \<open>hasChanges\<close>) or modelled from the specification and marked so.
\<close>

subsection \<open>Records and snapshots\<close>

text \<open>
  A queued change and a record of a snapshot have the same shape: the caller's fields
  (\<open>id\<close> and the rest, here \<open>payload\<close>), \<open>timestamp\<close> and \<open>deviceId\<close>. The field \<open>id\<close> is
  called \<open>ident\<close> because \<open>id\<close> is the identity function of HOL.
\<close>

record entry =
  ident :: string
  payload :: string
  timestamp :: int
  deviceId :: string

type_synonym snapshot = "(string \<times> entry) list"

datatype error = Error string

subsection \<open>Reading and writing a property of a plain object\<close>

text \<open>
  The snapshots are plain objects (an object literal, a spread, parsed JSON), so their
  prototype is \<open>Object.prototype\<close>. A read \<open>obj[k]\<close> finds the own property if there is
  one; otherwise it finds what \<open>Object.prototype\<close> has under \<open>k\<close>: a function for
  eleven names and, for \<open>__proto__\<close>, the prototype itself. Those inherited values are
  truthy, and their \<open>timestamp\<close> and \<open>deviceId\<close> are \<open>undefined\<close>. For every other
  name the read gives \<open>undefined\<close>.
\<close>

datatype lookup = Undefined | Inherited | Own entry

definition proto_keys :: "string list" where
  "proto_keys =
     [''constructor'', ''__defineGetter__'', ''__defineSetter__'', ''hasOwnProperty'',
      ''__lookupGetter__'', ''__lookupSetter__'', ''isPrototypeOf'', ''propertyIsEnumerable'',
      ''toString'', ''valueOf'', ''__proto__'', ''toLocaleString'']"

definition get_prop :: "snapshot \<Rightarrow> string \<Rightarrow> lookup" where
  "get_prop obj k =
     (case map_of obj k of
        Some v \<Rightarrow> Own v
      | None \<Rightarrow> if k \<in> set proto_keys then Inherited else Undefined)"

text \<open>
  A write \<open>obj[k] = v\<close> replaces the own property in place, or appends a new one. The
  exception is \<open>__proto__\<close> on an object that has no own property of that name: the
  inherited setter runs, which changes the prototype and adds no property. (The eleven
  inherited functions are writable data properties, so writing under their names makes an
  own property.)
\<close>

definition set_prop :: "string \<Rightarrow> entry \<Rightarrow> snapshot \<Rightarrow> snapshot" where
  "set_prop k v obj =
     (if k = ''__proto__'' \<and> map_of obj k = None then obj else AList.update k v obj)"

subsection \<open>mergeChanges (lines 57 to 78)\<close>

text \<open>
  One turn of the \<open>for\<close> loop of \<open>mergeChanges\<close>. \<open>baseVersion\<close> is read, as in the
  source, and never used. \<open>!remoteVersion\<close> holds exactly when the read gives
  \<open>undefined\<close>. When the read gives an inherited value, \<open>!remoteVersion\<close> is false and
  both comparisons of its \<open>timestamp\<close> (\<open>undefined\<close>) with the change's are false, so the
  merged snapshot is left as it is.
\<close>

definition merge_change :: "snapshot \<Rightarrow> snapshot \<Rightarrow> snapshot \<Rightarrow> entry \<Rightarrow> snapshot" where
  "merge_change baseState remoteState merged change =
     (let remoteVersion = get_prop remoteState (ident change);
          baseVersion = get_prop baseState (ident change)
      in case remoteVersion of
           Undefined \<Rightarrow> set_prop (ident change) change merged
         | Inherited \<Rightarrow> merged
         | Own rv \<Rightarrow>
             if timestamp rv < timestamp change
             then set_prop (ident change) change merged
             else if timestamp rv = timestamp change
             then (if deviceId change > deviceId rv
                   then set_prop (ident change) change merged
                   else merged)
             else merged)"

fun merge_loop :: "snapshot \<Rightarrow> snapshot \<Rightarrow> snapshot \<Rightarrow> entry list \<Rightarrow> snapshot" where
  "merge_loop baseState remoteState merged [] = merged"
| "merge_loop baseState remoteState merged (change # rest) =
     merge_loop baseState remoteState (merge_change baseState remoteState merged change) rest"

text \<open>
  \<open>getLastKnownState\<close> is called first and is not defined in the file: its outcome (a
  snapshot, or the error it throws) is an argument. The loop starts from a copy of the
  remote state.
\<close>

definition mergeChanges :: "error + snapshot \<Rightarrow> snapshot \<Rightarrow> entry list \<Rightarrow> error + snapshot" where
  "mergeChanges getLastKnownState remoteState localChanges =
     (case getLastKnownState of
        Inl e \<Rightarrow> Inl e
      | Inr baseState \<Rightarrow> Inr (merge_loop baseState remoteState remoteState localChanges))"

subsection \<open>calculateDiff (lines 91 to 99)\<close>

text \<open>
  The test of line 94. For an inherited value \<open>!oldState[key]\<close> is false and its
  \<open>timestamp\<close>, \<open>undefined\<close>, is not the value's.
\<close>

definition differs :: "snapshot \<Rightarrow> string \<Rightarrow> entry \<Rightarrow> bool" where
  "differs oldState key val =
     (case get_prop oldState key of
        Undefined \<Rightarrow> True
      | Inherited \<Rightarrow> True
      | Own ov \<Rightarrow> timestamp ov \<noteq> timestamp val)"

fun diff_loop :: "snapshot \<Rightarrow> snapshot \<Rightarrow> snapshot \<Rightarrow> snapshot" where
  "diff_loop oldState diff [] = diff"
| "diff_loop oldState diff ((key, val) # rest) =
     diff_loop oldState
       (if differs oldState key val then set_prop key val diff else diff) rest"

definition calculateDiff :: "snapshot \<Rightarrow> snapshot \<Rightarrow> snapshot" where
  "calculateDiff newState oldState = diff_loop oldState [] newState"

subsection \<open>The manager's state\<close>

text \<open>
  The constructor sets \<open>changeQueue\<close>, \<open>lastSyncTimestamp\<close> and \<open>isSyncing\<close> (and
  \<open>config\<close> and \<open>pendingChanges\<close>, which no method reads). Three more fields make the
  environment explicit:
  \<^item> \<open>timers\<close>: the callbacks armed by \<open>setTimeout\<close> and not yet fired, each with the
    time it is due, in arming order;
  \<^item> \<open>cycles\<close>: the invocations of \<open>performSync\<close> that are suspended at an \<open>await\<close>,
    each with the point where it waits;
  \<^item> \<open>effects\<close>: the calls made so far to the collaborators (the remote fetch, the
    hand-over of a diff to \<open>S3MultipartUpload\<close>, \<open>console.error\<close>).
\<close>

datatype cont = AwaitFetch | AwaitUpload | AwaitUploadNoop

datatype effect = FetchRemoteState | Upload snapshot | ConsoleError error

record state =
  changeQueue :: "entry list"
  lastSyncTimestamp :: int
  isSyncing :: bool
  timers :: "int list"
  cycles :: "cont list"
  effects :: "effect list"

definition init :: state where
  "init = \<lparr>changeQueue = [], lastSyncTimestamp = 0, isSyncing = False,
            timers = [], cycles = [], effects = []\<rparr>"

subsection \<open>queueChange and scheduleSyncIfNeeded (lines 12 to 27)\<close>

definition SYNC_DELAY :: int where
  "SYNC_DELAY = 5000"

text \<open>\<open>now\<close> is the clock when \<open>setTimeout\<close> is called.\<close>

definition scheduleSyncIfNeeded :: "int \<Rightarrow> state \<Rightarrow> state" where
  "scheduleSyncIfNeeded now s =
     (if \<not> isSyncing s \<and> length (changeQueue s) > 0
      then s\<lparr>timers := timers s @ [now + SYNC_DELAY]\<rparr>
      else s)"

text \<open>
  \<open>now\<close> is what \<open>Date.now()\<close> returns and \<open>dev\<close> what \<open>getDeviceId()\<close> returns at this
  call (\<open>getDeviceId\<close> touches only \<open>_deviceId\<close> and the local storage). The spread puts
  the caller's fields first, so \<open>timestamp\<close> and \<open>deviceId\<close> are overwritten.
\<close>

definition queueChange :: "entry \<Rightarrow> int \<Rightarrow> string \<Rightarrow> state \<Rightarrow> state" where
  "queueChange change now dev s =
     scheduleSyncIfNeeded now
       (s\<lparr>changeQueue := changeQueue s @ [change\<lparr>timestamp := now, deviceId := dev\<rparr>]\<rparr>)"

subsection \<open>performSync (lines 30 to 54) and uploadDiff (lines 81 to 88)\<close>

text \<open>
  \<open>performSync\<close> is an \<open>async\<close> function with two \<open>await\<close>s, so it runs in up to three
  pieces, and other callbacks run between them. The first piece is the guard and the
  call of \<open>fetchRemoteState\<close>.
\<close>

definition performSync :: "state \<Rightarrow> state" where
  "performSync s =
     (if isSyncing s then s
      else s\<lparr>isSyncing := True,
             cycles := cycles s @ [AwaitFetch],
             effects := effects s @ [FetchRemoteState]\<rparr>)"

definition catch_block :: "error \<Rightarrow> state \<Rightarrow> state" where
  "catch_block e s = s\<lparr>effects := effects s @ [ConsoleError e]\<rparr>"

definition finally_block :: "state \<Rightarrow> state" where
  "finally_block s = s\<lparr>isSyncing := False\<rparr>"

text \<open>Lines 46 and 47.\<close>

definition commit :: "int \<Rightarrow> state \<Rightarrow> state" where
  "commit now s = s\<lparr>changeQueue := [], lastSyncTimestamp := now\<rparr>"

text \<open>
  \<open>uploadDiff\<close> of the manager returns at once on an empty diff; otherwise it hands the
  diff to \<open>S3MultipartUpload.uploadDiff\<close> and waits for it. The caller awaits in both
  cases.
\<close>

definition uploadDiff :: "snapshot \<Rightarrow> snapshot \<Rightarrow> state \<Rightarrow> state \<times> cont" where
  "uploadDiff newState oldState s =
     (let diff = calculateDiff newState oldState
      in if length diff = 0 then (s, AwaitUploadNoop)
         else (s\<lparr>effects := effects s @ [Upload diff]\<rparr>, AwaitUpload))"

text \<open>
  The second piece runs when the fetch settles, with its outcome \<open>r\<close>. \<open>hasChanges\<close> is
  called by \<open>performSync\<close> and defined nowhere in the file, so it is a parameter.
  The result is the new state and, when the invocation suspends again, the point where
  it waits.
\<close>

definition after_fetch ::
  "(snapshot \<Rightarrow> snapshot \<Rightarrow> bool) \<Rightarrow> error + snapshot \<Rightarrow> error + snapshot \<Rightarrow> int \<Rightarrow> state
     \<Rightarrow> state \<times> cont option" where
  "after_fetch hasChanges r getLastKnownState now s =
     (case r of
        Inl e \<Rightarrow> (finally_block (catch_block e s), None)
      | Inr remoteState \<Rightarrow>
          (case mergeChanges getLastKnownState remoteState (changeQueue s) of
             Inl e \<Rightarrow> (finally_block (catch_block e s), None)
           | Inr mergedState \<Rightarrow>
               if hasChanges mergedState remoteState
               then (case uploadDiff mergedState remoteState s of (s', k) \<Rightarrow> (s', Some k))
               else (finally_block (commit now s), None)))"

text \<open>The third piece runs when the upload settles.\<close>

definition after_upload :: "error + unit \<Rightarrow> int \<Rightarrow> state \<Rightarrow> state" where
  "after_upload r now s =
     (case r of
        Inl e \<Rightarrow> finally_block (catch_block e s)
      | Inr u \<Rightarrow> finally_block (commit now s))"

text \<open>
  Modelled from the spec: \<open>hasChanges\<close>, which the file calls and does not define. The
  spec's DIFF step skips the upload exactly when the diff between merged and remote is
  empty.
\<close>

definition hasChanges :: "snapshot \<Rightarrow> snapshot \<Rightarrow> bool" where
  "hasChanges mergedState remoteState = (calculateDiff mergedState remoteState \<noteq> [])"

subsection \<open>Events\<close>

text \<open>
  What can happen to the manager: a caller queues a change; the oldest timer fires and
  calls \<open>performSync\<close>; someone calls \<open>performSync\<close> directly; the fetch of the oldest
  suspended invocation settles (with what \<open>getLastKnownState()\<close> and \<open>Date.now()\<close> return
  then); its upload settles. An event that cannot happen in a state (a timer firing when
  none is armed, a settlement nobody waits for) leaves the state as it is. An invocation
  that waits at \<open>AwaitUploadNoop\<close> awaits a promise that is already fulfilled, so only a
  success resumes it.
\<close>

datatype event =
    QueueChange entry int string
  | TimerFire
  | CallPerformSync
  | FetchSettled "error + snapshot" "error + snapshot" int
  | UploadSettled "error + unit" int

fun step :: "(snapshot \<Rightarrow> snapshot \<Rightarrow> bool) \<Rightarrow> state \<Rightarrow> event \<Rightarrow> state" where
  "step hc s (QueueChange change now dev) = queueChange change now dev s"
| "step hc s TimerFire =
     (case timers s of
        [] \<Rightarrow> s
      | t # ts \<Rightarrow> performSync (s\<lparr>timers := ts\<rparr>))"
| "step hc s CallPerformSync = performSync s"
| "step hc s (FetchSettled r b now) =
     (case cycles s of
        AwaitFetch # ks \<Rightarrow>
          (case after_fetch hc r b now s of
             (s', None) \<Rightarrow> s'\<lparr>cycles := ks\<rparr>
           | (s', Some k) \<Rightarrow> s'\<lparr>cycles := k # ks\<rparr>)
      | _ \<Rightarrow> s)"
| "step hc s (UploadSettled r now) =
     (case cycles s of
        AwaitUpload # ks \<Rightarrow> (after_upload r now s)\<lparr>cycles := ks\<rparr>
      | AwaitUploadNoop # ks \<Rightarrow>
          (case r of
             Inl e \<Rightarrow> s
           | Inr u \<Rightarrow> (after_upload r now s)\<lparr>cycles := ks\<rparr>)
      | _ \<Rightarrow> s)"

definition run :: "(snapshot \<Rightarrow> snapshot \<Rightarrow> bool) \<Rightarrow> state \<Rightarrow> event list \<Rightarrow> state" where
  "run hc s es = foldl (step hc) s es"

text \<open>A burst of calls of \<open>queueChange\<close>, and the queue entries they make.\<close>

definition stamp :: "entry \<times> int \<times> string \<Rightarrow> entry" where
  "stamp a = (case a of (change, now, dev) \<Rightarrow> change\<lparr>timestamp := now, deviceId := dev\<rparr>)"

definition enq :: "(entry \<times> int \<times> string) list \<Rightarrow> event list" where
  "enq arrivals = map (\<lambda>a. case a of (change, now, dev) \<Rightarrow> QueueChange change now dev) arrivals"

definition due :: "entry \<times> int \<times> string \<Rightarrow> int" where
  "due a = (case a of (change, now, dev) \<Rightarrow> now + SYNC_DELAY)"

subsection \<open>S3MultipartUpload.uploadDiff (lines 119 to 125)\<close>











subsection \<open>Auxiliary notions and sample data\<close>

text \<open>
  When a turn of the merge loop overwrites the merged entry: the read of the change's id
  in the remote state gives \<open>undefined\<close>, or an older record, or one of the same time from
  a device with a smaller identifier.
\<close>

definition accepts :: "snapshot \<Rightarrow> entry \<Rightarrow> bool" where
  "accepts remoteState change =
     (case get_prop remoteState (ident change) of
        Undefined \<Rightarrow> True
      | Inherited \<Rightarrow> False
      | Own rv \<Rightarrow> timestamp rv < timestamp change
                \<or> (timestamp rv = timestamp change \<and> deviceId rv < deviceId change))"

definition chg_a1 :: entry where
  "chg_a1 = \<lparr>ident = ''a'', payload = ''first'', timestamp = 100, deviceId = ''X''\<rparr>"

definition chg_a2 :: entry where
  "chg_a2 = \<lparr>ident = ''a'', payload = ''second'', timestamp = 100, deviceId = ''Y''\<rparr>"

definition chg_a3 :: entry where
  "chg_a3 = \<lparr>ident = ''a'', payload = ''third'', timestamp = 200, deviceId = ''Y''\<rparr>"

definition chg_b :: entry where
  "chg_b = \<lparr>ident = ''b'', payload = ''other'', timestamp = 100, deviceId = ''Y''\<rparr>"

definition rem_a :: entry where
  "rem_a = \<lparr>ident = ''a'', payload = ''remote'', timestamp = 100, deviceId = ''A''\<rparr>"

definition example_error :: error where
  "example_error = Error ''offline''"

definition queued :: state where
  "queued = \<lparr>changeQueue = [chg_a1], lastSyncTimestamp = 7, isSyncing = False,
              timers = [5100], cycles = [], effects = []\<rparr>"

definition syncing :: state where
  "syncing = \<lparr>changeQueue = [chg_a1], lastSyncTimestamp = 7, isSyncing = True,
               timers = [], cycles = [AwaitFetch], effects = [FetchRemoteState]\<rparr>"

definition chg_c :: entry where
  "chg_c = \<lparr>ident = ''c'', payload = ''more'', timestamp = 100, deviceId = ''Y''\<rparr>"

definition uploaded :: snapshot where
  "uploaded = [(''a'', chg_a1\<lparr>timestamp := 0, deviceId := ''dev''\<rparr>),
               (''b'', chg_b\<lparr>timestamp := 1000, deviceId := ''dev''\<rparr>),
               (''c'', chg_c\<lparr>timestamp := 2000, deviceId := ''dev''\<rparr>)]"

section \<open>Properties of the merge\<close>

lemma get_prop_Own [simp]: "map_of obj k = Some v \<Longrightarrow> get_prop obj k = Own v"
  by (simp add: get_prop_def)

lemma get_prop_Own_iff: "get_prop obj k = Own v \<longleftrightarrow> map_of obj k = Some v"
  by (auto simp: get_prop_def split: option.splits)

lemma get_prop_Undefined_iff:
  "get_prop obj k = Undefined \<longleftrightarrow> map_of obj k = None \<and> k \<notin> set proto_keys"
  by (auto simp: get_prop_def split: option.splits)

lemma set_prop_subset: "set (set_prop k v al) \<subseteq> insert (k, v) (set al)"
proof -
  have "set (AList.update k v al) \<subseteq> insert (k, v) (set al)"
    by (induction al) auto
  then show ?thesis by (auto simp: set_prop_def)
qed

text \<open>
  In the merge loop a write happens only under a name that the read found as an own
  property of the remote state, hence of the merged one, or did not find at all; so it
  always replaces or appends.
\<close>

lemma set_prop_update:
  "k \<noteq> ''__proto__'' \<or> k \<in> fst ` set al \<Longrightarrow> set_prop k v al = AList.update k v al"
  by (auto simp: set_prop_def map_of_eq_None_iff)

lemma accepts_writes:
  assumes "accepts r c" and "fst ` set r \<subseteq> fst ` set m"
  shows "set_prop (ident c) c m = AList.update (ident c) c m"
proof (cases "get_prop r (ident c)")
  case Undefined
  then have "ident c \<notin> set proto_keys" by (simp add: get_prop_Undefined_iff)
  then have "ident c \<noteq> ''__proto__''" by (auto simp: proto_keys_def)
  then show ?thesis by (simp add: set_prop_update)
next
  case Inherited
  with assms(1) show ?thesis by (simp add: accepts_def)
next
  case (Own rv)
  then have "map_of r (ident c) = Some rv" by (simp add: get_prop_Own_iff)
  then have "(ident c, rv) \<in> set r" by (rule map_of_SomeD)
  then have "ident c \<in> fst ` set r" by force
  with assms(2) have "ident c \<in> fst ` set m" by blast
  then show ?thesis by (simp add: set_prop_update)
qed

lemma merge_change_accepts:
  "merge_change b r m c = (if accepts r c then set_prop (ident c) c m else m)"
  by (auto simp: merge_change_def accepts_def split: lookup.splits)

lemma merge_change_update:
  "fst ` set r \<subseteq> fst ` set m \<Longrightarrow>
     merge_change b r m c = (if accepts r c then AList.update (ident c) c m else m)"
  by (simp add: merge_change_accepts accepts_writes)

lemma merge_change_keeps_keys:
  "fst ` set r \<subseteq> fst ` set m \<Longrightarrow> fst ` set r \<subseteq> fst ` set (merge_change b r m c)"
  by (auto simp: merge_change_update dom_update)

text \<open>
  The merged entry under a key is the last accepted change of the list with that id, or
  the entry the loop started with when no change with that id is accepted.
\<close>

lemma map_of_merge_loop:
  "fst ` set r \<subseteq> fst ` set m \<Longrightarrow>
   map_of (merge_loop b r m cs) k =
     (case filter (\<lambda>d. ident d = k \<and> accepts r d) cs of
        [] \<Rightarrow> map_of m k
      | x # xs \<Rightarrow> Some (last (x # xs)))"
proof (induction cs arbitrary: m)
  case Nil
  show ?case by simp
next
  case (Cons c cs)
  have step: "map_of (merge_loop b r m (c # cs)) k =
     (case filter (\<lambda>d. ident d = k \<and> accepts r d) cs of
        [] \<Rightarrow> map_of (merge_change b r m c) k
      | x # xs \<Rightarrow> Some (last (x # xs)))"
    by (simp add: Cons.IH [OF merge_change_keeps_keys [OF Cons.prems]])
  have mc: "map_of (merge_change b r m c) k =
     (if ident c = k \<and> accepts r c then Some c else map_of m k)"
    by (simp add: merge_change_update [OF Cons.prems] update_conv')
  show ?case
    unfolding step mc by (auto split: list.split)
qed

lemma set_merge_loop:
  "(k, v) \<in> set (merge_loop b r m cs) \<Longrightarrow>
     (k, v) \<in> set m \<or> (v \<in> set cs \<and> ident v = k \<and> accepts r v)"
proof (induction cs arbitrary: m)
  case Nil
  then show ?case by simp
next
  case (Cons c cs)
  from Cons.IH [OF Cons.prems [simplified]]
  show ?case
    using set_prop_subset [of "ident c" c m]
    by (auto simp: merge_change_accepts split: if_splits)
qed

lemma set_diff_loop:
  "(k, v) \<in> set (diff_loop old d new) \<Longrightarrow>
     (k, v) \<in> set d \<or> ((k, v) \<in> set new \<and> differs old k v)"
proof (induction new arbitrary: d)
  case Nil
  then show ?case by simp
next
  case (Cons p new)
  obtain k' v' where p: "p = (k', v')" by (cases p)
  from Cons.IH [OF Cons.prems [unfolded p, simplified]]
  show ?case
    using set_prop_subset [of k' v' d]
    by (auto simp: p split: if_splits)
qed

lemma filter_ident_le1:
  "distinct (map ident cs) \<Longrightarrow> length (filter (\<lambda>d. ident d = k \<and> A d) cs) \<le> 1"
  by (induction cs) (auto simp: filter_empty_conv intro: rev_image_eqI)

lemma short_list_mset_eq:
  "length xs \<le> 1 \<Longrightarrow> mset xs = mset ys \<Longrightarrow> xs = ys"
proof -
  assume a: "length xs \<le> 1" and b: "mset xs = mset ys"
  from b have "length xs = length ys" by (rule mset_eq_length)
  with a b show ?thesis
    by (cases xs; cases ys) auto
qed

lemma filter_ident_member:
  "distinct (map ident cs) \<Longrightarrow> c \<in> set cs \<Longrightarrow>
     filter (\<lambda>d. ident d = ident c \<and> A d) cs = (if A c then [c] else [])"
  by (induction cs) (auto simp: filter_empty_conv intro: rev_image_eqI)

text \<open>
  The model follows the read through the prototype chain: a change whose id names an
  inherited property, with no own remote record, is not written.
\<close>

lemma merge_inherited_name:
  "mergeChanges (Inr []) []
     [\<lparr>ident = ''constructor'', payload = ''p'', timestamp = 100, deviceId = ''X''\<rparr>] = Inr []"
  by (simp add: mergeChanges_def merge_change_def get_prop_def proto_keys_def)

subsection \<open>Changes whose id the remote state does not have\<close>

text \<open>
  C8, as the claim states it, fails: two pending changes with the same id, absent from
  the remote state, are both accepted, and the later one overwrites the earlier, which
  the merged snapshot then does not contain.
\<close>

theorem merge_drops_earlier_change_counterexample:
  "map_of [] (ident chg_a1) = None
   \<and> mergeChanges (Inr []) [] [chg_a1, chg_a3] = Inr [(''a'', chg_a3)]
   \<and> map_of [(''a'', chg_a3)] (ident chg_a1) \<noteq> Some chg_a1"
  by (simp add: mergeChanges_def merge_change_def get_prop_def set_prop_def proto_keys_def
      chg_a1_def chg_a3_def)

text \<open>
  C8, amended: for a pending change \<open>c\<close> such that the read \<open>remoteState[c.id]\<close> gives
  \<open>undefined\<close> (the remote snapshot has no entry for \<open>c.id\<close>, and \<open>c.id\<close> is not one of
  the names that every plain object inherits, such as \<open>constructor\<close> or \<open>toString\<close>),
  the merged snapshot holds under \<open>c.id\<close> the last pending change, in queue order, with
  that id; this is \<open>c\<close> itself when no later pending change has its id.
\<close>

theorem merge_absent_remote_last_wins:
  assumes "get_prop remoteState (ident c) = Undefined"
  shows "\<exists>merged. mergeChanges (Inr baseState) remoteState (xs @ c # ys) = Inr merged
           \<and> map_of merged (ident c) = Some (last (filter (\<lambda>d. ident d = ident c) (xs @ c # ys)))
           \<and> (ident c \<notin> ident ` set ys \<longrightarrow> map_of merged (ident c) = Some c)"
proof -
  let ?cs = "xs @ c # ys"
  have acc: "ident d = ident c \<Longrightarrow> accepts remoteState d" for d
    using assms by (simp add: accepts_def)
  have eq: "filter (\<lambda>d. ident d = ident c \<and> accepts remoteState d) ?cs
              = filter (\<lambda>d. ident d = ident c) ?cs"
    by (rule filter_cong) (auto simp: acc)
  have ne: "filter (\<lambda>d. ident d = ident c) ?cs \<noteq> []"
    by (simp add: filter_empty_conv)
  have m: "map_of (merge_loop baseState remoteState remoteState ?cs) (ident c)
             = Some (last (filter (\<lambda>d. ident d = ident c) ?cs))"
    using ne by (simp only: map_of_merge_loop [OF subset_refl] eq split: list.split) simp
  have l: "ident c \<notin> ident ` set ys \<Longrightarrow> last (filter (\<lambda>d. ident d = ident c) ?cs) = c"
  proof -
    assume "ident c \<notin> ident ` set ys"
    then have "filter (\<lambda>d. ident d = ident c) ys = []"
      by (auto simp: filter_empty_conv intro: rev_image_eqI)
    then show ?thesis by simp
  qed
  show ?thesis
    using m l by (simp add: mergeChanges_def)
qed

theorem merge_absent_remote_last_wins_witness:
  "\<exists>merged. mergeChanges (Inr []) [] ([chg_a1] @ chg_a3 # []) = Inr merged
     \<and> map_of merged (ident chg_a3)
         = Some (last (filter (\<lambda>d. ident d = ident chg_a3) ([chg_a1] @ chg_a3 # [])))
     \<and> (ident chg_a3 \<notin> ident ` set [] \<longrightarrow> map_of merged (ident chg_a3) = Some chg_a3)"
  using merge_absent_remote_last_wins [of "[]" chg_a3 "[]" "[chg_a1]" "[]"]
  by (simp add: get_prop_def proto_keys_def chg_a3_def)

subsection \<open>Ties\<close>

text \<open>
  C2, as the claim states it, fails: two pending changes with the same id and the same
  timestamp are each compared with the remote record only, never with each other. With
  no remote record both are accepted and the one processed last stays, whatever its
  device identifier, so the result depends on the order of the list.
\<close>

theorem merge_two_pending_order_counterexample:
  "ident chg_a1 = ident chg_a2 \<and> timestamp chg_a1 = timestamp chg_a2
   \<and> deviceId chg_a1 < deviceId chg_a2
   \<and> mergeChanges (Inr []) [] [chg_a2, chg_a1] = Inr [(''a'', chg_a1)]
   \<and> mergeChanges (Inr []) [] [chg_a1, chg_a2] = Inr [(''a'', chg_a2)]
   \<and> chg_a1 \<noteq> chg_a2"
  by (simp add: mergeChanges_def merge_change_def get_prop_def set_prop_def proto_keys_def
      chg_a1_def chg_a2_def)

text \<open>
  C2, amended: the tie that merge breaks is the one between a pending change and the
  remote record with its id. When the pending changes have pairwise different ids, the
  merged snapshot (as a mapping from id to record) is the same for every permutation of
  the pending list, and for a pending change \<open>c\<close> whose remote record has the same
  timestamp it holds under \<open>c.id\<close> the one of the two with the greater device
  identifier: \<open>c\<close> if \<open>c.deviceId\<close> is greater, the remote record otherwise.
\<close>

theorem merge_tiebreak_against_remote:
  assumes "distinct (map ident cs)" and "mset cs' = mset cs"
  shows "\<exists>merged merged'.
           mergeChanges (Inr baseState) remoteState cs = Inr merged
         \<and> mergeChanges (Inr baseState) remoteState cs' = Inr merged'
         \<and> map_of merged' = map_of merged
         \<and> (\<forall>c \<in> set cs. \<forall>rv.
               map_of remoteState (ident c) = Some rv \<and> timestamp rv = timestamp c \<longrightarrow>
               map_of merged (ident c) = Some (if deviceId c > deviceId rv then c else rv))"
proof -
  let ?m = "merge_loop baseState remoteState remoteState cs"
  let ?m' = "merge_loop baseState remoteState remoteState cs'"
  have same: "filter (\<lambda>d. ident d = k \<and> accepts remoteState d) cs'
                = filter (\<lambda>d. ident d = k \<and> accepts remoteState d) cs" for k
  proof -
    have "mset (filter (\<lambda>d. ident d = k \<and> accepts remoteState d) cs)
            = mset (filter (\<lambda>d. ident d = k \<and> accepts remoteState d) cs')"
      using assms(2) by simp
    with filter_ident_le1 [OF assms(1)] show ?thesis
      by (rule short_list_mset_eq [symmetric])
  qed
  have perm: "map_of ?m' = map_of ?m"
    by (rule ext) (simp add: map_of_merge_loop [OF subset_refl] same)
  have tie: "map_of ?m (ident c) = Some (if deviceId c > deviceId rv then c else rv)"
    if "c \<in> set cs" and "map_of remoteState (ident c) = Some rv"
      and "timestamp rv = timestamp c" for c rv
  proof -
    have "accepts remoteState c \<longleftrightarrow> deviceId rv < deviceId c"
      using that(2,3) by (simp add: accepts_def)
    then show ?thesis
      using that(2)
      by (simp add: map_of_merge_loop [OF subset_refl] filter_ident_member [OF assms(1) that(1)])
  qed
  show ?thesis
    using perm tie by (simp add: mergeChanges_def)
qed

theorem merge_tiebreak_against_remote_witness:
  "\<exists>merged merged'.
      mergeChanges (Inr []) [(''a'', rem_a)] [chg_a2, chg_b] = Inr merged
    \<and> mergeChanges (Inr []) [(''a'', rem_a)] [chg_b, chg_a2] = Inr merged'
    \<and> map_of merged' = map_of merged
    \<and> map_of merged (ident chg_a2) = Some chg_a2"
proof -
  have d: "distinct (map ident [chg_a2, chg_b])"
    by (simp add: chg_a2_def chg_b_def)
  have p: "mset [chg_b, chg_a2] = mset [chg_a2, chg_b]"
    by simp
  have r: "map_of [(''a'', rem_a)] (ident chg_a2) = Some rem_a \<and> timestamp rem_a = timestamp chg_a2
           \<and> deviceId chg_a2 > deviceId rem_a"
    by (simp add: chg_a2_def rem_a_def)
  from merge_tiebreak_against_remote [OF d p, of "[]" "[(''a'', rem_a)]"] r
  show ?thesis by fastforce
qed

subsection \<open>A change that wins the tie against the remote record, and the diff\<close>

text \<open>
  C10, as the claim states it, fails: the diff looks at the merged entry under the id,
  and that entry is another pending change when a later one with the same id is
  accepted. Then the id is in the diff although the earlier change won its tie.
\<close>

theorem diff_includes_tied_id_counterexample:
  "map_of [(''a'', rem_a)] (ident chg_a2) = Some rem_a
   \<and> timestamp rem_a = timestamp chg_a2 \<and> deviceId chg_a2 > deviceId rem_a
   \<and> mergeChanges (Inr []) [(''a'', rem_a)] [chg_a2, chg_a3] = Inr [(''a'', chg_a3)]
   \<and> calculateDiff [(''a'', chg_a3)] [(''a'', rem_a)] = [(ident chg_a2, chg_a3)]"
  by (simp add: mergeChanges_def merge_change_def calculateDiff_def differs_def
        get_prop_def set_prop_def proto_keys_def chg_a2_def chg_a3_def rem_a_def)

text \<open>
  C10, amended: for a remote snapshot (an object, so its keys are distinct) and a
  pending change \<open>c\<close> that wins the equal-timestamp tie against the remote record for
  \<open>c.id\<close>, the diff between the merged and the remote snapshot never contains \<open>c\<close>, so
  \<open>c\<close> is never uploaded; and it has no entry at all under \<open>c.id\<close> when every pending
  change with that id has \<open>c\<close>'s timestamp (in particular when \<open>c\<close> is the only one).
\<close>

theorem tied_change_not_in_diff:
  assumes "distinct (map fst remoteState)"
    and "c \<in> set cs"
    and "map_of remoteState (ident c) = Some rv"
    and "timestamp rv = timestamp c"
    and "deviceId c > deviceId rv"
  shows "\<exists>merged. mergeChanges (Inr baseState) remoteState cs = Inr merged
           \<and> c \<notin> snd ` set (calculateDiff merged remoteState)
           \<and> ((\<forall>d \<in> set cs. ident d = ident c \<longrightarrow> timestamp d = timestamp c) \<longrightarrow>
                ident c \<notin> fst ` set (calculateDiff merged remoteState))"
proof -
  let ?m = "merge_loop baseState remoteState remoteState cs"
  have a: "(k, c) \<notin> set (calculateDiff ?m remoteState)" for k
  proof
    assume "(k, c) \<in> set (calculateDiff ?m remoteState)"
    then have in_m: "(k, c) \<in> set ?m" and df: "differs remoteState k c"
      using set_diff_loop [of k c remoteState "[]" ?m] by (simp_all add: calculateDiff_def)
    from set_merge_loop [OF in_m] show False
    proof
      assume "(k, c) \<in> set remoteState"
      with assms(1) have "map_of remoteState k = Some c" by simp
      with df show False by (simp add: differs_def)
    next
      assume "c \<in> set cs \<and> ident c = k \<and> accepts remoteState c"
      with df assms(3,4) show False by (auto simp: differs_def)
    qed
  qed
  have b: "(ident c, v) \<notin> set (calculateDiff ?m remoteState)"
    if all: "\<forall>d \<in> set cs. ident d = ident c \<longrightarrow> timestamp d = timestamp c" for v
  proof
    assume "(ident c, v) \<in> set (calculateDiff ?m remoteState)"
    then have in_m: "(ident c, v) \<in> set ?m" and df: "differs remoteState (ident c) v"
      using set_diff_loop [of "ident c" v remoteState "[]" ?m] by (simp_all add: calculateDiff_def)
    from df assms(3) have ne: "timestamp rv \<noteq> timestamp v" by (simp add: differs_def)
    from set_merge_loop [OF in_m] show False
    proof
      assume "(ident c, v) \<in> set remoteState"
      with assms(1) have "map_of remoteState (ident c) = Some v" by simp
      with assms(3) ne show False by simp
    next
      assume "v \<in> set cs \<and> ident v = ident c \<and> accepts remoteState v"
      with all assms(4) ne show False by auto
    qed
  qed
  show ?thesis
    using a b by (auto simp: mergeChanges_def)
qed

theorem tied_change_not_in_diff_witness:
  "\<exists>merged. mergeChanges (Inr []) [(''a'', rem_a)] [chg_a2, chg_b] = Inr merged
     \<and> chg_a2 \<notin> snd ` set (calculateDiff merged [(''a'', rem_a)])
     \<and> ident chg_a2 \<notin> fst ` set (calculateDiff merged [(''a'', rem_a)])"
proof -
  have h: "distinct (map fst [(''a'', rem_a)])" "chg_a2 \<in> set [chg_a2, chg_b]"
    "map_of [(''a'', rem_a)] (ident chg_a2) = Some rem_a"
    "timestamp rem_a = timestamp chg_a2" "deviceId chg_a2 > deviceId rem_a"
    by (simp_all add: chg_a2_def rem_a_def)
  have o: "\<forall>d \<in> set [chg_a2, chg_b]. ident d = ident chg_a2 \<longrightarrow> timestamp d = timestamp chg_a2"
    by (simp add: chg_a2_def chg_b_def)
  from tied_change_not_in_diff [OF h, of "[]"] o
  show ?thesis by blast
qed

section \<open>Sync cycles\<close>

lemma run_Nil: "run hc s [] = s"
  by (simp add: run_def)

lemma run_Cons: "run hc s (e # es) = run hc (step hc s e) es"
  by (simp add: run_def)

lemma run_append: "run hc s (xs @ ys) = run hc (run hc s xs) ys"
  by (simp add: run_def)

lemma run_enq_syncing:
  "isSyncing s \<Longrightarrow> run hc s (enq A) = s\<lparr>changeQueue := changeQueue s @ map stamp A\<rparr>"
proof (induction A arbitrary: s)
  case Nil
  show ?case by (simp add: enq_def run_Nil)
next
  case (Cons a A)
  obtain c t d where a: "a = (c, t, d)" by (cases a)
  have st: "step hc s (QueueChange c t d) = s\<lparr>changeQueue := changeQueue s @ [stamp a]\<rparr>"
    using Cons.prems by (simp add: a queueChange_def scheduleSyncIfNeeded_def stamp_def)
  have "run hc s (enq (a # A)) = run hc (s\<lparr>changeQueue := changeQueue s @ [stamp a]\<rparr>) (enq A)"
    using st by (simp add: enq_def a run_Cons)
  also have "\<dots> = s\<lparr>changeQueue := changeQueue s @ map stamp (a # A)\<rparr>"
    using Cons.prems by (simp add: Cons.IH)
  finally show ?case .
qed

lemma run_enq_idle:
  "\<not> isSyncing s \<Longrightarrow>
     run hc s (enq A) = s\<lparr>changeQueue := changeQueue s @ map stamp A,
                           timers := timers s @ map due A\<rparr>"
proof (induction A arbitrary: s)
  case Nil
  show ?case by (simp add: enq_def run_Nil)
next
  case (Cons a A)
  obtain c t d where a: "a = (c, t, d)" by (cases a)
  let ?s1 = "s\<lparr>changeQueue := changeQueue s @ [stamp a], timers := timers s @ [due a]\<rparr>"
  have st: "step hc s (QueueChange c t d) = ?s1"
    using Cons.prems by (simp add: a queueChange_def scheduleSyncIfNeeded_def stamp_def due_def)
  have "run hc s (enq (a # A)) = run hc ?s1 (enq A)"
    using st by (simp add: enq_def a run_Cons)
  also have "\<dots> = s\<lparr>changeQueue := changeQueue s @ map stamp (a # A),
                       timers := timers s @ map due (a # A)\<rparr>"
    using Cons.prems by (simp add: Cons.IH)
  finally show ?case .
qed


lemma run_snoc: "run hc s (es @ [e]) = step hc (run hc s es) e"
  by (simp add: run_def)

text \<open>A cycle started by a direct call from an idle state, up to the settlement of the fetch.\<close>

lemma run_start_fetch:
  assumes "\<not> isSyncing s" and "cycles s = []"
  shows "run hc s (CallPerformSync # enq early) =
           s\<lparr>changeQueue := changeQueue s @ map stamp early, isSyncing := True,
              cycles := [AwaitFetch], effects := effects s @ [FetchRemoteState]\<rparr>"
  using assms by (simp add: run_Cons performSync_def run_enq_syncing)

lemma cycle_fetch_fails:
  assumes "\<not> isSyncing s" and "cycles s = []"
  shows "run hc s (CallPerformSync # enq early @ [FetchSettled (Inl e) b now]) =
           s\<lparr>changeQueue := changeQueue s @ map stamp early,
              effects := effects s @ [FetchRemoteState, ConsoleError e]\<rparr>"
proof -
  have "run hc s (CallPerformSync # enq early @ [FetchSettled (Inl e) b now])
          = step hc (run hc s (CallPerformSync # enq early)) (FetchSettled (Inl e) b now)"
    by (simp add: run_def)
  also have "\<dots> = s\<lparr>changeQueue := changeQueue s @ map stamp early,
              effects := effects s @ [FetchRemoteState, ConsoleError e]\<rparr>"
    using assms
    by (simp add: run_start_fetch after_fetch_def catch_block_def finally_block_def)
  finally show ?thesis .
qed

lemma cycle_merge_fails:
  assumes "\<not> isSyncing s" and "cycles s = []"
  shows "run hc s (CallPerformSync # enq early @ [FetchSettled (Inr remote) (Inl e) now]) =
           s\<lparr>changeQueue := changeQueue s @ map stamp early,
              effects := effects s @ [FetchRemoteState, ConsoleError e]\<rparr>"
proof -
  have "run hc s (CallPerformSync # enq early @ [FetchSettled (Inr remote) (Inl e) now])
          = step hc (run hc s (CallPerformSync # enq early)) (FetchSettled (Inr remote) (Inl e) now)"
    by (simp add: run_def)
  also have "\<dots> = s\<lparr>changeQueue := changeQueue s @ map stamp early,
              effects := effects s @ [FetchRemoteState, ConsoleError e]\<rparr>"
    using assms
    by (simp add: run_start_fetch after_fetch_def mergeChanges_def catch_block_def
        finally_block_def)
  finally show ?thesis .
qed

text \<open>The fetch and the merge succeed and \<open>hasChanges\<close> says no: the cycle commits at once.\<close>

lemma cycle_no_changes:
  assumes "\<not> isSyncing s" and "cycles s = []"
    and "\<not> hc (merge_loop base remote remote (changeQueue s @ map stamp early)) remote"
  shows "run hc s (CallPerformSync # enq early @ [FetchSettled (Inr remote) (Inr base) now]) =
           s\<lparr>changeQueue := [], lastSyncTimestamp := now,
              effects := effects s @ [FetchRemoteState]\<rparr>"
proof -
  have "run hc s (CallPerformSync # enq early @ [FetchSettled (Inr remote) (Inr base) now])
          = step hc (run hc s (CallPerformSync # enq early)) (FetchSettled (Inr remote) (Inr base) now)"
    by (simp add: run_def)
  also have "\<dots> = s\<lparr>changeQueue := [], lastSyncTimestamp := now,
              effects := effects s @ [FetchRemoteState]\<rparr>"
    using assms
    by (simp add: run_start_fetch after_fetch_def mergeChanges_def commit_def
        finally_block_def)
  finally show ?thesis .
qed

text \<open>
  The fetch and the merge succeed and \<open>hasChanges\<close> says yes: the invocation waits for
  \<open>uploadDiff\<close>, which has called the uploader unless the diff is empty.
\<close>

lemma cycle_to_upload:
  assumes "\<not> isSyncing s" and "cycles s = []"
    and "hc (merge_loop base remote remote (changeQueue s @ map stamp early)) remote"
  shows "run hc s (CallPerformSync # enq early @ FetchSettled (Inr remote) (Inr base) now # enq late) =
           (let diff = calculateDiff (merge_loop base remote remote (changeQueue s @ map stamp early)) remote
            in s\<lparr>changeQueue := changeQueue s @ map stamp early @ map stamp late,
                 isSyncing := True,
                 cycles := [if diff = [] then AwaitUploadNoop else AwaitUpload],
                 effects := effects s @ FetchRemoteState # (if diff = [] then [] else [Upload diff])\<rparr>)"
proof -
  let ?diff = "calculateDiff (merge_loop base remote remote (changeQueue s @ map stamp early)) remote"
  let ?s2 = "s\<lparr>changeQueue := changeQueue s @ map stamp early,
                 isSyncing := True,
                 cycles := [if ?diff = [] then AwaitUploadNoop else AwaitUpload],
                 effects := effects s @ FetchRemoteState # (if ?diff = [] then [] else [Upload ?diff])\<rparr>"
  have "run hc s (CallPerformSync # enq early @ FetchSettled (Inr remote) (Inr base) now # enq late)
          = run hc (step hc (run hc s (CallPerformSync # enq early))
                      (FetchSettled (Inr remote) (Inr base) now)) (enq late)"
    by (simp add: run_def)
  also have "step hc (run hc s (CallPerformSync # enq early))
                      (FetchSettled (Inr remote) (Inr base) now) = ?s2"
    using assms
    by (simp add: run_start_fetch after_fetch_def mergeChanges_def uploadDiff_def Let_def)
  also have "run hc ?s2 (enq late) = ?s2\<lparr>changeQueue := changeQueue ?s2 @ map stamp late\<rparr>"
    by (rule run_enq_syncing) simp
  finally show ?thesis by (simp add: Let_def)
qed


lemma cycle_upload_fails:
  assumes "\<not> isSyncing s" and "cycles s = []"
    and "hc (merge_loop base remote remote (changeQueue s @ map stamp early)) remote"
    and "calculateDiff (merge_loop base remote remote (changeQueue s @ map stamp early)) remote \<noteq> []"
  shows "run hc s (CallPerformSync # enq early @ FetchSettled (Inr remote) (Inr base) now # enq late @ [UploadSettled (Inl e) now2]) =
           s\<lparr>changeQueue := changeQueue s @ map stamp early @ map stamp late,
              effects := effects s @
                [FetchRemoteState,
                 Upload (calculateDiff (merge_loop base remote remote (changeQueue s @ map stamp early)) remote),
                 ConsoleError e]\<rparr>"
proof -
  let ?tr = "CallPerformSync # enq early @ FetchSettled (Inr remote) (Inr base) now # enq late"
  have "run hc s (CallPerformSync # enq early @ FetchSettled (Inr remote) (Inr base) now # enq late @ [UploadSettled (Inl e) now2])
          = step hc (run hc s ?tr) (UploadSettled (Inl e) now2)"
    by (simp add: run_def)
  also have "\<dots> = s\<lparr>changeQueue := changeQueue s @ map stamp early @ map stamp late,
              effects := effects s @
                [FetchRemoteState,
                 Upload (calculateDiff (merge_loop base remote remote (changeQueue s @ map stamp early)) remote),
                 ConsoleError e]\<rparr>"
    unfolding cycle_to_upload [where hc = hc and s = s, OF assms(1-3)] using assms
    by (simp add: Let_def after_upload_def catch_block_def finally_block_def)
  finally show ?thesis .
qed

lemma cycle_upload_succeeds:
  assumes "\<not> isSyncing s" and "cycles s = []"
    and "hc (merge_loop base remote remote (changeQueue s @ map stamp early)) remote"
  shows "run hc s (CallPerformSync # enq early @ FetchSettled (Inr remote) (Inr base) now # enq late @ [UploadSettled (Inr ()) now2]) =
           (let diff = calculateDiff (merge_loop base remote remote (changeQueue s @ map stamp early)) remote
            in s\<lparr>changeQueue := [], lastSyncTimestamp := now2,
                 effects := effects s @ FetchRemoteState # (if diff = [] then [] else [Upload diff])\<rparr>)"
proof -
  let ?tr = "CallPerformSync # enq early @ FetchSettled (Inr remote) (Inr base) now # enq late"
  have "run hc s (CallPerformSync # enq early @ FetchSettled (Inr remote) (Inr base) now # enq late @ [UploadSettled (Inr ()) now2])
          = step hc (run hc s ?tr) (UploadSettled (Inr ()) now2)"
    by (simp add: run_def)
  also have "\<dots> = (let diff = calculateDiff (merge_loop base remote remote (changeQueue s @ map stamp early)) remote
            in s\<lparr>changeQueue := [], lastSyncTimestamp := now2,
                 effects := effects s @ FetchRemoteState # (if diff = [] then [] else [Upload diff])\<rparr>)"
    unfolding cycle_to_upload [where hc = hc and s = s, OF assms(1-3)] using assms
    by (simp add: Let_def after_upload_def commit_def finally_block_def)
  finally show ?thesis .
qed


lemma timer_starts_like_call:
  "timers s = t # ts \<Longrightarrow> run hc s (TimerFire # es) = run hc (s\<lparr>timers := ts\<rparr>) (CallPerformSync # es)"
  by (simp add: run_Cons)


subsection \<open>A cycle that fails\<close>

text \<open>
  C6: from a state where no cycle runs, a cycle is started (by a direct call or by a
  timer), changes arrive while it waits, and a step fails: the fetch, the merge (through
  \<open>getLastKnownState\<close>), or the upload. At the end the queue holds what it held at the
  start followed by the arrivals, once each and in order; \<open>lastSyncTimestamp\<close> is what
  it was; the error has gone to \<open>console.error\<close> and the invocation has returned, with
  \<open>isSyncing\<close> reset.
\<close>

theorem failed_cycle_keeps_queue:
  assumes "\<not> isSyncing s" and "cycles s = []"
    and "start = CallPerformSync \<or> (start = TimerFire \<and> timers s \<noteq> [])"
  shows "(let s' = run hc s (start # enq early @ [FetchSettled (Inl e) b now])
          in changeQueue s' = changeQueue s @ map stamp early
           \<and> lastSyncTimestamp s' = lastSyncTimestamp s
           \<and> \<not> isSyncing s' \<and> cycles s' = []
           \<and> effects s' = effects s @ [FetchRemoteState, ConsoleError e])
       \<and> (let s' = run hc s (start # enq early @ [FetchSettled (Inr remote) (Inl e) now])
          in changeQueue s' = changeQueue s @ map stamp early
           \<and> lastSyncTimestamp s' = lastSyncTimestamp s
           \<and> \<not> isSyncing s' \<and> cycles s' = []
           \<and> effects s' = effects s @ [FetchRemoteState, ConsoleError e])
       \<and> (let merged = merge_loop base remote remote (changeQueue s @ map stamp early);
              diff = calculateDiff merged remote;
              s' = run hc s (start # enq early @ FetchSettled (Inr remote) (Inr base) now
                               # enq late @ [UploadSettled (Inl e) now2])
          in hc merged remote \<and> diff \<noteq> [] \<longrightarrow>
             changeQueue s' = changeQueue s @ map stamp early @ map stamp late
           \<and> lastSyncTimestamp s' = lastSyncTimestamp s
           \<and> \<not> isSyncing s' \<and> cycles s' = []
           \<and> effects s' = effects s @ [FetchRemoteState, Upload diff, ConsoleError e])"
proof -
  have call: ?thesis if "start = CallPerformSync"
    using assms(1,2) that
    by (simp add: Let_def cycle_fetch_fails cycle_merge_fails cycle_upload_fails)
  have timer: ?thesis if "start = TimerFire" and "timers s = t # ts" for t ts
  proof -
    let ?s = "s\<lparr>timers := ts\<rparr>"
    have idle: "\<not> isSyncing ?s" "cycles ?s = []"
      using assms(1,2) by simp_all
    show ?thesis
      unfolding that(1) timer_starts_like_call [OF that(2)] using assms(1,2)
      by (simp add: Let_def cycle_fetch_fails [OF idle] cycle_merge_fails [OF idle]
          cycle_upload_fails [where hc = hc and s = ?s, OF idle])
  qed
  from assms(3) show ?thesis
  proof
    assume "start = CallPerformSync"
    then show ?thesis by (rule call)
  next
    assume a: "start = TimerFire \<and> timers s \<noteq> []"
    then obtain t ts where ts: "timers s = t # ts" by (cases "timers s") auto
    from a have "start = TimerFire" ..
    then show ?thesis using ts by (rule timer)
  qed
qed

theorem failed_cycle_keeps_queue_witness:
  "(let s' = run hasChanges queued
               (TimerFire # enq [(chg_b, 5200, ''dev'')] @ [FetchSettled (Inl example_error) (Inr []) 5300])
    in changeQueue s' = [chg_a1, chg_b\<lparr>timestamp := 5200, deviceId := ''dev''\<rparr>]
     \<and> lastSyncTimestamp s' = 7 \<and> \<not> isSyncing s' \<and> cycles s' = []
     \<and> effects s' = [FetchRemoteState, ConsoleError example_error])
   \<and> (let s' = run hasChanges queued
               (TimerFire # enq [(chg_b, 5200, ''dev'')] @ [FetchSettled (Inr []) (Inl example_error) 5300])
    in changeQueue s' = [chg_a1, chg_b\<lparr>timestamp := 5200, deviceId := ''dev''\<rparr>]
     \<and> lastSyncTimestamp s' = 7 \<and> \<not> isSyncing s' \<and> cycles s' = []
     \<and> effects s' = [FetchRemoteState, ConsoleError example_error])
   \<and> (let s' = run hasChanges queued
               (TimerFire # enq [(chg_b, 5200, ''dev'')] @ FetchSettled (Inr []) (Inr []) 5300
                  # enq [(chg_a3, 5400, ''dev'')] @ [UploadSettled (Inl example_error) 5500])
    in changeQueue s' = [chg_a1, chg_b\<lparr>timestamp := 5200, deviceId := ''dev''\<rparr>,
                          chg_a3\<lparr>timestamp := 5400, deviceId := ''dev''\<rparr>]
     \<and> lastSyncTimestamp s' = 7 \<and> \<not> isSyncing s' \<and> cycles s' = []
     \<and> effects s' = [FetchRemoteState,
                      Upload [(''a'', chg_a1), (''b'', chg_b\<lparr>timestamp := 5200, deviceId := ''dev''\<rparr>)],
                      ConsoleError example_error])"
  using failed_cycle_keeps_queue [of queued TimerFire hasChanges "[(chg_b, 5200, ''dev'')]"
      example_error "Inr []" 5300 "[]" "[]" "[(chg_a3, 5400, ''dev'')]" 5500]
  by (simp add: queued_def Let_def stamp_def hasChanges_def calculateDiff_def differs_def
      get_prop_def set_prop_def proto_keys_def merge_change_def chg_a1_def chg_b_def chg_a3_def)

subsection \<open>A cycle with nothing to send\<close>

text \<open>
  C3: the fetch and the merge succeed and the diff between the merged and the remote
  snapshot is empty. Whatever \<open>hasChanges\<close> answers, nothing is handed to the uploader
  (no \<open>Upload\<close> among the effects): either \<open>performSync\<close> skips \<open>uploadDiff\<close>, or
  \<open>uploadDiff\<close> returns at once on the empty diff. The cycle commits: the queue is
  cleared, \<open>lastSyncTimestamp\<close> is set to the clock at that moment, \<open>isSyncing\<close> is
  reset.
\<close>

theorem empty_diff_cycle_commits:
  assumes "\<not> isSyncing s" and "cycles s = []"
    and "start = CallPerformSync \<or> (start = TimerFire \<and> timers s \<noteq> [])"
    and "calculateDiff (merge_loop base remote remote (changeQueue s @ map stamp early)) remote = []"
  shows "let merged = merge_loop base remote remote (changeQueue s @ map stamp early);
             s' = (if hc merged remote
                   then run hc s (start # enq early @ FetchSettled (Inr remote) (Inr base) now
                                    # enq late @ [UploadSettled (Inr ()) now2])
                   else run hc s (start # enq early @ [FetchSettled (Inr remote) (Inr base) now]))
         in changeQueue s' = []
          \<and> lastSyncTimestamp s' = (if hc merged remote then now2 else now)
          \<and> \<not> isSyncing s' \<and> cycles s' = []
          \<and> effects s' = effects s @ [FetchRemoteState]"
proof -
  have call: "let merged = merge_loop base remote remote (changeQueue z @ map stamp early);
             s' = (if hc merged remote
                   then run hc z (CallPerformSync # enq early @ FetchSettled (Inr remote) (Inr base) now
                                    # enq late @ [UploadSettled (Inr ()) now2])
                   else run hc z (CallPerformSync # enq early @ [FetchSettled (Inr remote) (Inr base) now]))
         in changeQueue s' = []
          \<and> lastSyncTimestamp s' = (if hc merged remote then now2 else now)
          \<and> \<not> isSyncing s' \<and> cycles s' = []
          \<and> effects s' = effects z @ [FetchRemoteState]"
    if idle: "\<not> isSyncing z" "cycles z = []"
      and d: "calculateDiff (merge_loop base remote remote (changeQueue z @ map stamp early)) remote = []"
    for z
  proof (cases "hc (merge_loop base remote remote (changeQueue z @ map stamp early)) remote")
    case True
    show ?thesis
      using True idle d
      by (simp add: Let_def cycle_upload_succeeds [where hc = hc and s = z, OF idle True])
  next
    case False
    show ?thesis
      using False idle
      by (simp add: Let_def cycle_no_changes [where hc = hc and s = z, OF idle False])
  qed
  from assms(3) show ?thesis
  proof
    assume st: "start = CallPerformSync"
    show ?thesis unfolding st by (rule call [OF assms(1,2,4)])
  next
    assume a: "start = TimerFire \<and> timers s \<noteq> []"
    then obtain t ts where ts: "timers s = t # ts" by (cases "timers s") auto
    let ?z = "s\<lparr>timers := ts\<rparr>"
    have z: "\<not> isSyncing ?z" "cycles ?z = []"
      "calculateDiff (merge_loop base remote remote (changeQueue ?z @ map stamp early)) remote = []"
      using assms(1,2,4) by simp_all
    from a have st: "start = TimerFire" ..
    from call [OF z] show ?thesis
      unfolding st timer_starts_like_call [OF ts] by (simp add: Let_def)
  qed
qed


theorem empty_diff_cycle_commits_witness:
  "(let s' = run hasChanges queued
               (TimerFire # enq [] @ [FetchSettled (Inr [(''a'', rem_a)]) (Inr []) 5200])
    in changeQueue s' = [] \<and> lastSyncTimestamp s' = 5200 \<and> \<not> isSyncing s' \<and> cycles s' = []
     \<and> effects s' = [FetchRemoteState])
   \<and> (let s' = run (\<lambda>m r. True) queued
               (TimerFire # enq [] @ FetchSettled (Inr [(''a'', rem_a)]) (Inr []) 5200
                  # enq [(chg_b, 5300, ''dev'')] @ [UploadSettled (Inr ()) 5400])
    in changeQueue s' = [] \<and> lastSyncTimestamp s' = 5400 \<and> \<not> isSyncing s' \<and> cycles s' = []
     \<and> effects s' = [FetchRemoteState])"
  using empty_diff_cycle_commits [where s = queued and start = TimerFire and base = "[]"
      and remote = "[(''a'', rem_a)]" and early = "[]" and hc = hasChanges and now = 5200
      and late = "[]" and ?now2.0 = 0]
    empty_diff_cycle_commits [where s = queued and start = TimerFire and base = "[]"
      and remote = "[(''a'', rem_a)]" and early = "[]" and hc = "\<lambda>m r. True" and now = 5200
      and late = "[(chg_b, 5300, ''dev'')]" and ?now2.0 = 5400]
  by (simp add: queued_def Let_def hasChanges_def calculateDiff_def differs_def
      get_prop_def set_prop_def proto_keys_def merge_change_def chg_a1_def rem_a_def)

subsection \<open>Changes queued while the upload is awaited\<close>

text \<open>
  C1 does not hold on the success path. A change queued while \<open>performSync\<close> awaits
  \<open>uploadDiff\<close> was not in the list given to \<open>mergeChanges\<close>; line 46 then replaces the
  whole queue by the empty list. Below, the second change is queued after the merge; the
  upload carries the first change only, and at the end the queue is empty and no timer is
  armed: the second change is gone.
\<close>

theorem change_queued_during_upload_is_lost:
  "run hasChanges init
     [QueueChange chg_a1 100 ''dev'', TimerFire, FetchSettled (Inr []) (Inr []) 5200,
      QueueChange chg_b 5300 ''dev'', UploadSettled (Inr ()) 5400]
   = \<lparr>changeQueue = [], lastSyncTimestamp = 5400, isSyncing = False, timers = [],
      cycles = [], effects = [FetchRemoteState, Upload [(''a'', chg_a1\<lparr>deviceId := ''dev''\<rparr>)]]\<rparr>"
  by (simp add: run_def init_def queueChange_def scheduleSyncIfNeeded_def performSync_def
      after_fetch_def after_upload_def uploadDiff_def commit_def finally_block_def
      mergeChanges_def merge_change_def hasChanges_def calculateDiff_def differs_def
      get_prop_def set_prop_def proto_keys_def
      SYNC_DELAY_def chg_a1_def chg_b_def)

subsection \<open>The end of a cycle and the timers\<close>

text \<open>
  C4, as the claim states it, fails: when the fetch fails the queue still holds the
  change at the end of the cycle, and no timer is armed and no cycle runs.
\<close>

theorem failed_cycle_arms_no_timer_counterexample:
  "run hasChanges init
     [QueueChange chg_a1 100 ''dev'', TimerFire, FetchSettled (Inl example_error) (Inr []) 5200]
   = \<lparr>changeQueue = [chg_a1\<lparr>deviceId := ''dev''\<rparr>], lastSyncTimestamp = 0, isSyncing = False,
      timers = [], cycles = [], effects = [FetchRemoteState, ConsoleError example_error]\<rparr>"
  by (simp add: run_def init_def queueChange_def scheduleSyncIfNeeded_def performSync_def
      after_fetch_def catch_block_def finally_block_def SYNC_DELAY_def chg_a1_def)

lemma after_fetch_keeps_timers:
  "after_fetch hc r b now s = (s', k) \<Longrightarrow> timers s' = timers s"
  by (auto simp: after_fetch_def uploadDiff_def catch_block_def finally_block_def commit_def
      Let_def split: sum.splits if_splits)

lemma after_fetch_done_idle:
  "after_fetch hc r b now s = (s', None) \<Longrightarrow> \<not> isSyncing s'"
  by (auto simp: after_fetch_def uploadDiff_def catch_block_def finally_block_def commit_def
      Let_def split: sum.splits if_splits)

lemma after_upload_keeps_timers: "timers (after_upload r now s) = timers s"
  by (simp add: after_upload_def catch_block_def finally_block_def commit_def split: sum.splits)

lemma after_upload_idle: "\<not> isSyncing (after_upload r now s)"
  by (simp add: after_upload_def catch_block_def finally_block_def commit_def split: sum.splits)

text \<open>
  C4, amended: when a cycle completes, with success or failure, \<open>isSyncing\<close> is reset
  and the completion arms no timer: the timers pending afterwards are those pending
  before. Changes left in the queue wait for a cycle started by one of those timers or
  by the timer that the next call of \<open>queueChange\<close> arms, 5000 ms after that call.
\<close>

theorem cycle_end_arms_no_timer:
  assumes "cycles s = k # ks" and "cycles (step hc s e) = ks"
  shows "timers (step hc s e) = timers s
       \<and> \<not> isSyncing (step hc s e)
       \<and> timers (queueChange c now dev (step hc s e)) = timers s @ [now + SYNC_DELAY]"
proof -
  have main: "timers (step hc s e) = timers s \<and> \<not> isSyncing (step hc s e)"
  proof (cases e)
    case (QueueChange c' t d)
    with assms show ?thesis
      by (simp add: queueChange_def scheduleSyncIfNeeded_def split: if_splits)
  next
    case TimerFire
    with assms show ?thesis
      by (auto simp: performSync_def split: list.splits if_splits)
  next
    case CallPerformSync
    with assms show ?thesis
      by (auto simp: performSync_def split: if_splits)
  next
    case (FetchSettled r b t)
    obtain s' k' where af: "after_fetch hc r b t s = (s', k')"
      by (cases "after_fetch hc r b t s")
    with assms FetchSettled show ?thesis
      using after_fetch_keeps_timers [OF af] after_fetch_done_idle [of hc r b t s s']
      by (cases k; cases k') auto
  next
    case (UploadSettled r t)
    with assms show ?thesis
      using after_upload_keeps_timers [of r t s] after_upload_idle [of r t s]
      by (cases k; cases r) auto
  qed
  then show ?thesis
    by (simp add: queueChange_def scheduleSyncIfNeeded_def)
qed

theorem cycle_end_arms_no_timer_witness:
  "timers (step hasChanges syncing (FetchSettled (Inl example_error) (Inr []) 5200)) = timers syncing
   \<and> changeQueue (step hasChanges syncing (FetchSettled (Inl example_error) (Inr []) 5200)) = [chg_a1]
   \<and> \<not> isSyncing (step hasChanges syncing (FetchSettled (Inl example_error) (Inr []) 5200))
   \<and> timers (queueChange chg_b 6000 ''dev''
        (step hasChanges syncing (FetchSettled (Inl example_error) (Inr []) 5200))) = [11000]"
  using cycle_end_arms_no_timer [of syncing AwaitFetch "[]" hasChanges
      "FetchSettled (Inl example_error) (Inr []) 5200" chg_b 6000 "''dev''"]
  by (simp add: syncing_def after_fetch_def catch_block_def finally_block_def SYNC_DELAY_def)

subsection \<open>One cycle at a time\<close>

lemma step_keeps_single_cycle:
  assumes "length (cycles s) \<le> 1" and "isSyncing s \<longleftrightarrow> cycles s \<noteq> []"
  shows "length (cycles (step hc s e)) \<le> 1
       \<and> (isSyncing (step hc s e) \<longleftrightarrow> cycles (step hc s e) \<noteq> [])"
proof (cases e)
  case (QueueChange c t d)
  with assms show ?thesis
    by (simp add: queueChange_def scheduleSyncIfNeeded_def)
next
  case TimerFire
  with assms show ?thesis
    by (auto simp: performSync_def split: list.splits)
next
  case CallPerformSync
  with assms show ?thesis
    by (auto simp: performSync_def)
next
  case (FetchSettled r b t)
  show ?thesis
  proof (cases "cycles s")
    case Nil
    with assms FetchSettled show ?thesis by simp
  next
    case (Cons k ks)
    with assms(1) have ks: "ks = []" by simp
    obtain s' k' where af: "after_fetch hc r b t s = (s', k')"
      by (cases "after_fetch hc r b t s")
    have "k' = None \<longrightarrow> \<not> isSyncing s'"
      using after_fetch_done_idle [of hc r b t s s'] af by simp
    moreover have "k' \<noteq> None \<longrightarrow> isSyncing s'"
      using af assms(2) Cons
      by (auto simp: after_fetch_def uploadDiff_def Let_def split: sum.splits if_splits)
    ultimately show ?thesis
      using FetchSettled Cons ks af assms(2) by (cases k; cases k') auto
  qed
next
  case (UploadSettled r t)
  show ?thesis
  proof (cases "cycles s")
    case Nil
    with assms UploadSettled show ?thesis by simp
  next
    case (Cons k ks)
    with assms(1) have ks: "ks = []" by simp
    show ?thesis
      using UploadSettled Cons ks assms(2) after_upload_idle [of r t s]
      by (cases k; cases r) auto
  qed
qed

lemma run_keeps_single_cycle:
  "length (cycles s) \<le> 1 \<Longrightarrow> (isSyncing s \<longleftrightarrow> cycles s \<noteq> []) \<Longrightarrow>
     length (cycles (run hc s es)) \<le> 1 \<and> (isSyncing (run hc s es) \<longleftrightarrow> cycles (run hc s es) \<noteq> [])"
proof (induction es arbitrary: s)
  case Nil
  then show ?case by (simp add: run_Nil)
next
  case (Cons e es)
  from step_keeps_single_cycle [OF Cons.prems, of hc e]
  have "length (cycles (step hc s e)) \<le> 1"
    and "isSyncing (step hc s e) \<longleftrightarrow> cycles (step hc s e) \<noteq> []"
    by simp_all
  then show ?case
    unfolding run_Cons by (rule Cons.IH)
qed

text \<open>
  C7: \<open>performSync\<close> invoked while \<open>isSyncing\<close> is set changes nothing and calls
  nothing. In every state reached from the constructor's state by any sequence of
  events, at most one invocation of \<open>performSync\<close> is suspended, and \<open>isSyncing\<close> is set
  exactly when there is one. An invocation that ends with the settlement of the fetch
  (no further \<open>await\<close>) or with the settlement of the upload leaves \<open>isSyncing\<close> reset,
  whether it committed or caught an error.
\<close>

theorem one_cycle_in_flight:
  "(isSyncing s \<longrightarrow> performSync s = s)
   \<and> length (cycles (run hc init es)) \<le> 1
   \<and> (isSyncing (run hc init es) \<longleftrightarrow> cycles (run hc init es) \<noteq> [])
   \<and> (\<forall>s'. after_fetch hc r b now s = (s', None) \<longrightarrow> \<not> isSyncing s')
   \<and> \<not> isSyncing (after_upload u now s)"
proof -
  have "length (cycles init) \<le> 1" and "isSyncing init \<longleftrightarrow> cycles init \<noteq> []"
    by (simp_all add: init_def)
  from run_keeps_single_cycle [OF this, of hc es]
  show ?thesis
    by (simp add: performSync_def after_fetch_done_idle after_upload_idle)
qed

theorem one_cycle_in_flight_witness:
  "performSync syncing = syncing
   \<and> length (cycles (run hasChanges init
         [QueueChange chg_a1 100 ''dev'', QueueChange chg_b 200 ''dev'', TimerFire,
          CallPerformSync, TimerFire])) \<le> 1
   \<and> isSyncing (run hasChanges init
         [QueueChange chg_a1 100 ''dev'', QueueChange chg_b 200 ''dev'', TimerFire,
          CallPerformSync, TimerFire])
   \<and> \<not> isSyncing (fst (after_fetch hasChanges (Inl example_error) (Inr []) 5200 syncing))
   \<and> \<not> isSyncing (after_upload (Inr ()) 5200 syncing)"
  using one_cycle_in_flight [where s = syncing and hc = hasChanges
      and es = "[QueueChange chg_a1 100 ''dev'', QueueChange chg_b 200 ''dev'', TimerFire,
        CallPerformSync, TimerFire]" and r = "Inl example_error" and b = "Inr []" and now = 5200
      and u = "Inr ()"]
  by (simp add: syncing_def after_fetch_def run_def init_def queueChange_def
      scheduleSyncIfNeeded_def performSync_def)

subsection \<open>A burst of changes\<close>

text \<open>
  C5, as the claim states it, fails: every call of \<open>queueChange\<close> made while no cycle
  runs arms a timer of its own. Three changes queued within two seconds arm three
  timers, and when each cycle ends before the next timer fires, three cycles run (three
  fetches).
\<close>

theorem burst_arms_three_timers_counterexample:
  "timers (run hasChanges init
      [QueueChange chg_a1 0 ''dev'', QueueChange chg_b 1000 ''dev'', QueueChange chg_c 2000 ''dev''])
     = [5000, 6000, 7000]
   \<and> effects (run hasChanges init
      [QueueChange chg_a1 0 ''dev'', QueueChange chg_b 1000 ''dev'', QueueChange chg_c 2000 ''dev'',
       TimerFire, FetchSettled (Inr []) (Inr []) 5100, UploadSettled (Inr ()) 5200,
       TimerFire, FetchSettled (Inr uploaded) (Inr []) 6100,
       TimerFire, FetchSettled (Inr uploaded) (Inr []) 7100])
     = [FetchRemoteState, Upload uploaded, FetchRemoteState, FetchRemoteState]"
  by (simp add: run_def init_def queueChange_def scheduleSyncIfNeeded_def performSync_def
      after_fetch_def after_upload_def uploadDiff_def commit_def finally_block_def
      mergeChanges_def merge_change_def hasChanges_def calculateDiff_def differs_def
      get_prop_def set_prop_def proto_keys_def
      SYNC_DELAY_def chg_a1_def chg_b_def chg_c_def uploaded_def)

lemma timer_while_syncing:
  "isSyncing z \<Longrightarrow> step hc z TimerFire = z\<lparr>timers := tl (timers z)\<rparr>"
  by (cases "timers z") (simp_all add: performSync_def)

lemma timer_while_idle:
  "\<not> isSyncing z \<Longrightarrow> timers z = t # ts \<Longrightarrow>
     step hc z TimerFire = z\<lparr>timers := ts, isSyncing := True, cycles := cycles z @ [AwaitFetch],
                              effects := effects z @ [FetchRemoteState]\<rparr>"
  by (simp add: performSync_def)

lemma burst_then_timer:
  assumes "\<not> isSyncing s" and "cycles s = []" and "timers s = []" and "burst \<noteq> []"
  shows "run hc s (enq burst @ [TimerFire]) =
           s\<lparr>changeQueue := changeQueue s @ map stamp burst, isSyncing := True,
              timers := map due (tl burst), cycles := [AwaitFetch],
              effects := effects s @ [FetchRemoteState]\<rparr>"
proof -
  obtain a rest where b: "burst = a # rest"
    using assms(4) by (cases burst) auto
  show ?thesis
    unfolding run_snoc run_enq_idle [OF assms(1)]
    using assms(1-3) by (simp add: b performSync_def)
qed

lemma burst_cycle_effects:
  assumes "\<not> isSyncing s" and "cycles s = []" and "timers s = []" and "burst \<noteq> []"
  shows "effects (run hc s (enq burst @ TimerFire # enq early
                             @ [FetchSettled (Inr remote) (Inr base) now])) =
           (let merged = merge_loop base remote remote
                           (changeQueue s @ map stamp burst @ map stamp early);
                diff = calculateDiff merged remote
            in effects s @ FetchRemoteState # (if hc merged remote \<and> diff \<noteq> [] then [Upload diff] else []))"
proof -
  let ?s1 = "s\<lparr>changeQueue := changeQueue s @ map stamp burst, isSyncing := True,
              timers := map due (tl burst), cycles := [AwaitFetch],
              effects := effects s @ [FetchRemoteState]\<rparr>"
  have "run hc s (enq burst @ TimerFire # enq early @ [FetchSettled (Inr remote) (Inr base) now])
          = step hc (run hc (run hc s (enq burst @ [TimerFire])) (enq early))
              (FetchSettled (Inr remote) (Inr base) now)"
    by (simp add: run_def)
  also have "run hc (run hc s (enq burst @ [TimerFire])) (enq early)
               = ?s1\<lparr>changeQueue := changeQueue ?s1 @ map stamp early\<rparr>"
    unfolding burst_then_timer [OF assms] by (rule run_enq_syncing) simp
  finally show ?thesis
    by (simp add: after_fetch_def mergeChanges_def uploadDiff_def commit_def finally_block_def
        Let_def)
qed

text \<open>
  C5, amended: for a burst of calls of \<open>queueChange\<close> made while no cycle runs, every
  call arms its own timer, due 5000 ms after that call, and no timer is reset; all the
  changes are in the queue. With no older timer pending, the first timer to fire is the
  one of the first call; it starts a cycle, whose merge gets the whole queue as it is
  when the fetch settles, so all changes of the burst. Each later timer returns without
  a step if a cycle runs when it fires, and starts a further cycle otherwise.
\<close>

theorem burst_arms_a_timer_per_change:
  assumes "\<not> isSyncing s" and "cycles s = []" and "burst \<noteq> []"
  shows "timers (run hc s (enq burst)) = timers s @ map due burst
       \<and> changeQueue (run hc s (enq burst)) = changeQueue s @ map stamp burst
       \<and> (timers s = [] \<longrightarrow>
            run hc s (enq burst @ [TimerFire]) =
              s\<lparr>changeQueue := changeQueue s @ map stamp burst, isSyncing := True,
                 timers := map due (tl burst), cycles := [AwaitFetch],
                 effects := effects s @ [FetchRemoteState]\<rparr>
          \<and> effects (run hc s (enq burst @ TimerFire # enq early
                                 @ [FetchSettled (Inr remote) (Inr base) now])) =
              (let merged = merge_loop base remote remote
                              (changeQueue s @ map stamp burst @ map stamp early);
                   diff = calculateDiff merged remote
               in effects s @ FetchRemoteState
                    # (if hc merged remote \<and> diff \<noteq> [] then [Upload diff] else [])))
       \<and> (isSyncing z \<longrightarrow> step hc z TimerFire = z\<lparr>timers := tl (timers z)\<rparr>)
       \<and> (\<not> isSyncing z \<and> timers z \<noteq> [] \<longrightarrow>
            step hc z TimerFire =
              z\<lparr>timers := tl (timers z), isSyncing := True, cycles := cycles z @ [AwaitFetch],
                effects := effects z @ [FetchRemoteState]\<rparr>)"
proof -
  have a: "timers (run hc s (enq burst)) = timers s @ map due burst"
    "changeQueue (run hc s (enq burst)) = changeQueue s @ map stamp burst"
    by (simp_all add: run_enq_idle [OF assms(1)])
  have b: "\<not> isSyncing z \<and> timers z \<noteq> [] \<longrightarrow>
            step hc z TimerFire =
              z\<lparr>timers := tl (timers z), isSyncing := True, cycles := cycles z @ [AwaitFetch],
                effects := effects z @ [FetchRemoteState]\<rparr>"
    by (cases "timers z") (simp_all add: performSync_def)
  show ?thesis
    using a b timer_while_syncing [of z hc]
      burst_then_timer [OF assms(1,2) _ assms(3), of hc]
      burst_cycle_effects [OF assms(1,2) _ assms(3), of hc early remote base now]
    by simp
qed

theorem burst_arms_a_timer_per_change_witness:
  "timers (run hasChanges init
      (enq [(chg_a1, 0, ''dev''), (chg_b, 1000, ''dev''), (chg_c, 2000, ''dev'')]))
     = [5000, 6000, 7000]
   \<and> changeQueue (run hasChanges init
      (enq [(chg_a1, 0, ''dev''), (chg_b, 1000, ''dev''), (chg_c, 2000, ''dev'')]))
     = map snd uploaded
   \<and> timers (run hasChanges init
      (enq [(chg_a1, 0, ''dev''), (chg_b, 1000, ''dev''), (chg_c, 2000, ''dev'')] @ [TimerFire]))
     = [6000, 7000]
   \<and> effects (run hasChanges init
      (enq [(chg_a1, 0, ''dev''), (chg_b, 1000, ''dev''), (chg_c, 2000, ''dev'')]
         @ TimerFire # enq [] @ [FetchSettled (Inr []) (Inr []) 5100]))
     = [FetchRemoteState, Upload uploaded]
   \<and> step hasChanges syncing TimerFire = syncing
   \<and> effects (step hasChanges queued TimerFire) = [FetchRemoteState]"
  using burst_arms_a_timer_per_change [where s = init and hc = hasChanges
      and burst = "[(chg_a1, 0, ''dev''), (chg_b, 1000, ''dev''), (chg_c, 2000, ''dev'')]"
      and early = "[]" and remote = "[]" and base = "[]" and now = 5100 and z = syncing]
    burst_arms_a_timer_per_change [where s = init and hc = hasChanges
      and burst = "[(chg_a1, 0, ''dev'')]"
      and early = "[]" and remote = "[]" and base = "[]" and now = 5100 and z = queued]
  by (simp add: init_def syncing_def queued_def due_def stamp_def SYNC_DELAY_def uploaded_def
      Let_def hasChanges_def calculateDiff_def differs_def merge_change_def
      get_prop_def set_prop_def proto_keys_def
      chg_a1_def chg_b_def chg_c_def)

section \<open>The choice between single and multipart upload\<close>















end
